theory Spec2Isabelle
  imports Main
begin

section \<open>Values\<close>

text \<open>
  The operators are generic in the element type. Two JavaScript values behave specially
  in the code and are kept apart from ordinary values: \<open>undefined\<close>, which the code
  uses as its marker for "nothing yet" (\<open>let lastValue = undefined\<close>, the omitted
  \<open>initial\<close> of \<open>reduce\<close>), and \<open>NaN\<close>, which is never strictly equal to
  anything. \<open>Val v\<close> stands for every other value; strict equality on those is identity.
\<close>

datatype 'a jsval = Undefined | NaN | Val 'a

text \<open>\<open>a === b\<close>.\<close>

fun strict_eq :: "'a jsval \<Rightarrow> 'a jsval \<Rightarrow> bool" where
  "strict_eq Undefined Undefined = True"
| "strict_eq (Val a) (Val b) = (a = b)"
| "strict_eq _ _ = False"

text \<open>\<open>a <= b\<close> on numbers; a comparison with \<open>undefined\<close> or \<open>NaN\<close> is false.\<close>

fun js_le :: "int jsval \<Rightarrow> int jsval \<Rightarrow> bool" where
  "js_le (Val a) (Val b) = (a \<le> b)"
| "js_le _ _ = False"

text \<open>\<open>a + b\<close> on numbers; \<open>undefined\<close> converts to \<open>NaN\<close>.\<close>

fun js_add :: "int jsval \<Rightarrow> int jsval \<Rightarrow> int jsval" where
  "js_add (Val a) (Val b) = Val (a + b)"
| "js_add _ _ = NaN"

text \<open>
  \<open>a % b\<close> on integers: the remainder of the truncated division, which has the sign
  of \<open>a\<close>, and \<open>NaN\<close> (here \<open>None\<close>) when \<open>b\<close> is zero.
\<close>

definition js_rem :: "int \<Rightarrow> int \<Rightarrow> int option" where
  "js_rem a b = (if b = 0 then None else Some (sgn a * (\<bar>a\<bar> mod \<bar>b\<bar>)))"

text \<open>
  What iterating a generator object observes: the values it yields, in order, and the
  value its body returns (which \<open>for ... of\<close> and spread discard).
\<close>

datatype ('y, 'r) generator = Generator (yields: "'y list") (returns: 'r)

text \<open>
  The one exception the code can raise by itself (in lists.js); no function of the
  source contains a \<open>throw\<close>.
\<close>

datatype error = TypeError

section \<open>streams.ts\<close>

text \<open>
  A finite source is the list of its elements. A generator whose body only yields is
  modelled by the list of what it yields when iterated to the end. The numeric arguments
  \<open>count\<close>, \<open>step\<close> and \<open>n\<close> are integers of either sign.
\<close>

subsection \<open>filter, reject, empty, all, any\<close>

text \<open>The predicate is given by the truthiness of its result.\<close>

primrec filter_it :: "'a list \<Rightarrow> ('a \<Rightarrow> bool) \<Rightarrow> 'a list" where
  "filter_it [] fun = []"
| "filter_it (item # rest) fun =
     (if fun item then item # filter_it rest fun else filter_it rest fun)"

definition reject :: "'a list \<Rightarrow> ('a \<Rightarrow> bool) \<Rightarrow> 'a list" where
  "reject iterable fun = filter_it iterable (\<lambda>x. \<not> fun x)"

fun empty_it :: "'a list \<Rightarrow> bool" where
  "empty_it [] = True"
| "empty_it (item # rest) = False"

definition all_it :: "'a list \<Rightarrow> ('a \<Rightarrow> bool) \<Rightarrow> bool" where
  "all_it iterable fun = empty_it (reject iterable fun)"

definition any_it :: "'a list \<Rightarrow> ('a \<Rightarrow> bool) \<Rightarrow> bool" where
  "any_it iterable fun = (\<not> empty_it (filter_it iterable fun))"

subsection \<open>map, concat, drop\<close>

primrec map_it :: "'a list \<Rightarrow> ('a \<Rightarrow> 'b) \<Rightarrow> 'b list" where
  "map_it [] fun = []"
| "map_it (item # rest) fun = fun item # map_it rest fun"

primrec concat_it :: "'a list list \<Rightarrow> 'a list" where
  "concat_it [] = []"
| "concat_it (item # rest) = item @ concat_it rest"

text \<open>The loop of \<open>drop\<close>, with the local \<open>count\<close> as an argument.\<close>

fun drop_loop :: "'a list \<Rightarrow> int \<Rightarrow> int \<Rightarrow> 'a list" where
  "drop_loop [] n count = []"
| "drop_loop (item # rest) n count =
     (if count \<ge> n then item # drop_loop rest n (count + 1)
      else drop_loop rest n (count + 1))"

definition drop_it :: "'a list \<Rightarrow> int \<Rightarrow> 'a list" where
  "drop_it iterable n = drop_loop iterable n 0"

subsection \<open>chunkEvery\<close>

text \<open>
  The loop of \<open>chunkEvery\<close>, with the locals \<open>currents\<close> and \<open>i\<close> as arguments.
  \<open>unshift\<close> puts the new window at the front of \<open>currents\<close>, every window takes the
  item, and only the window at the end of \<open>currents\<close> is tested against \<open>count\<close>. When
  \<open>currents\<close> is empty, \<open>currents[currents.length - 1]?.length\<close> is \<open>undefined\<close>,
  which is not \<open>count\<close>. After the source is exhausted the remaining windows are
  yielded by \<open>for (const current of currents)\<close>, that is, from the front.
\<close>

fun chunkEvery_loop :: "'a list \<Rightarrow> int \<Rightarrow> int \<Rightarrow> 'a list list \<Rightarrow> int \<Rightarrow> 'a list list" where
  "chunkEvery_loop [] count step currents i = currents"
| "chunkEvery_loop (item # rest) count step currents i =
     (let opened = (if js_rem i step = Some 0 then [] # currents else currents);
          pushed = map (\<lambda>current. current @ [item]) opened
      in if pushed \<noteq> [] \<and> int (length (last pushed)) = count
         then last pushed # chunkEvery_loop rest count step (butlast pushed) (i + 1)
         else chunkEvery_loop rest count step pushed (i + 1))"

text \<open>\<open>step\<close> is optional and defaults to \<open>count\<close>.\<close>

definition chunkEvery :: "'a list \<Rightarrow> int \<Rightarrow> int option \<Rightarrow> 'a list list" where
  "chunkEvery iterable count step =
     chunkEvery_loop iterable count (case step of None \<Rightarrow> count | Some s \<Rightarrow> s) [] 0"

text \<open>
  The invariant of \<open>currents\<close> between two turns of the loop, for a positive
  \<open>count = c\<close>: the windows are non-empty, none has reached \<open>c\<close> elements, and an
  older window (further back) is longer than a newer one.
\<close>

definition open_inv :: "nat \<Rightarrow> 'a list list \<Rightarrow> bool" where
  "open_inv c currents \<longleftrightarrow>
     sorted_wrt (\<lambda>a b. length a < length b) currents \<and>
     (\<forall>w \<in> set currents. 0 < length w \<and> length w < c)"

subsection \<open>dropEvery\<close>

text \<open>
  \<open>dropEvery\<close> is declared \<open>function*\<close> and its body is the single statement
  \<open>return concat(map(chunkEvery(iterable, n), (it) => drop(it, 1)))\<close>: the generator
  yields nothing and hands the concatenation back as its return value.
\<close>

definition dropEvery :: "'a list \<Rightarrow> int \<Rightarrow> ('a, 'a list) generator" where
  "dropEvery iterable n =
     Generator [] (concat_it (map_it (chunkEvery iterable n None) (\<lambda>it. drop_it it 1)))"

subsection \<open>dedup\<close>

text \<open>
  The loop of \<open>dedup\<close>, with the local \<open>lastValue\<close> as an argument; it starts as
  \<open>undefined\<close>. The code in lists.js is the same, statement for statement.
\<close>

fun dedup_loop :: "'a list \<Rightarrow> ('a \<Rightarrow> 'k jsval) \<Rightarrow> 'k jsval \<Rightarrow> 'a list" where
  "dedup_loop [] fun lastValue = []"
| "dedup_loop (item # rest) fun lastValue =
     (let value = fun item
      in if \<not> strict_eq value lastValue then item # dedup_loop rest fun value
         else dedup_loop rest fun lastValue)"

definition dedup :: "'a list \<Rightarrow> ('a \<Rightarrow> 'k jsval) \<Rightarrow> 'a list" where
  "dedup iterable fun = dedup_loop iterable fun Undefined"

subsection \<open>reduce, max, maxBy, minBy\<close>

text \<open>
  The loop of \<open>reduce\<close>, with the local \<open>acc\<close> as an argument. An omitted
  \<open>initial\<close> is \<open>undefined\<close>.
\<close>

fun reduce_loop :: "'a jsval list \<Rightarrow> ('a jsval \<Rightarrow> 'a jsval \<Rightarrow> 'a jsval) \<Rightarrow> 'a jsval \<Rightarrow> 'a jsval" where
  "reduce_loop [] fun acc = acc"
| "reduce_loop (item # rest) fun acc =
     (if strict_eq acc Undefined then reduce_loop rest fun item
      else reduce_loop rest fun (fun acc item))"

definition reduce :: "'a jsval list \<Rightarrow> ('a jsval \<Rightarrow> 'a jsval \<Rightarrow> 'a jsval) \<Rightarrow> 'a jsval \<Rightarrow> 'a jsval" where
  "reduce iterable fun initial = reduce_loop iterable fun initial"

text \<open>The default \<open>sorter\<close> of \<open>max\<close>, \<open>maxBy\<close> and \<open>minBy\<close>: \<open>(a, b) => a <= b\<close>.\<close>

definition default_sorter :: "int jsval \<Rightarrow> int jsval \<Rightarrow> bool" where
  "default_sorter a b = js_le a b"

definition max_it :: "'a jsval list \<Rightarrow> ('a jsval \<Rightarrow> 'a jsval \<Rightarrow> bool) \<Rightarrow> 'a jsval" where
  "max_it iterable sorter = reduce iterable (\<lambda>a b. if sorter a b then b else a) Undefined"

definition maxBy :: "'a jsval list \<Rightarrow> ('a jsval \<Rightarrow> 'u) \<Rightarrow> ('u \<Rightarrow> 'u \<Rightarrow> bool) \<Rightarrow> 'a jsval" where
  "maxBy iterable fun sorter =
     reduce iterable (\<lambda>a b. if sorter (fun a) (fun b) then a else b) Undefined"

definition minBy :: "'a jsval list \<Rightarrow> ('a jsval \<Rightarrow> 'u) \<Rightarrow> ('u \<Rightarrow> 'u \<Rightarrow> bool) \<Rightarrow> 'a jsval" where
  "minBy iterable fun sorter =
     reduce iterable (\<lambda>a b. if sorter (fun a) (fun b) then a else b) Undefined"

section \<open>streams.js: take\<close>

text \<open>
  \<open>take\<close> is modelled pull by pull, since what it asks of its source matters. The
  source is a single-pass iterator over the given elements, such as the generator
  \<open>listToStream\<close> of the repository's tests. The generator object of \<open>take\<close> holds
  the source iterator (\<open>upstream\<close>, the elements it can still hand out), the local
  \<open>count\<close> (the field \<open>counter\<close>), and whether the body has finished;
  \<open>requested\<close> counts the calls of \<open>next()\<close> made on the source. Calling
  \<open>take(iterable, n)\<close> runs none of the body.
\<close>

record 'a take_gen =
  upstream :: "'a list"
  counter :: int
  requested :: nat
  finished :: bool

definition take_init :: "'a list \<Rightarrow> 'a take_gen" where
  "take_init iterable = \<lparr>upstream = iterable, counter = 0, requested = 0, finished = False\<rparr>"

text \<open>
  One call of \<open>next()\<close> on the generator. The body resumes at the head of
  \<open>for (const item of iterable)\<close>, which calls \<open>next()\<close> on the source once; then
  either the source is exhausted, or \<open>count++ >= n\<close> holds and the loop breaks, or the
  item is yielded. On \<open>break\<close> the item just fetched is dropped and \<open>for ... of\<close>
  closes the source iterator by calling its \<open>return()\<close>, which ends a generator:
  the source hands out nothing any more.
\<close>

definition take_next :: "int \<Rightarrow> 'a take_gen \<Rightarrow> 'a option \<times> 'a take_gen" where
  "take_next n g =
     (if finished g then (None, g)
      else case upstream g of
        [] \<Rightarrow> (None, g\<lparr>requested := requested g + 1, finished := True\<rparr>)
      | item # rest \<Rightarrow>
          (if counter g \<ge> n
           then (None, \<lparr>upstream = [], counter = counter g + 1,
                        requested = requested g + 1, finished = True\<rparr>)
           else (Some item, \<lparr>upstream = rest, counter = counter g + 1,
                             requested = requested g + 1, finished = False\<rparr>)))"

text \<open>
  A consumer that iterates to the end (\<open>[...take(source, n)]\<close>, or \<open>for ... of\<close>
  without a break): it calls \<open>next()\<close> until the generator reports that it is done.
\<close>

function drain :: "int \<Rightarrow> 'a take_gen \<Rightarrow> 'a list \<times> 'a take_gen" where
  "drain n g =
     (case take_next n g of
        (None, g') \<Rightarrow> ([], g')
      | (Some v, g') \<Rightarrow> (case drain n g' of (vs, g'') \<Rightarrow> (v # vs, g'')))"
  by pat_completeness auto
termination
  by (relation "measure (\<lambda>(n, g). length (upstream g))")
     (auto simp: take_next_def split: if_splits list.splits)

text \<open>The elements \<open>take\<close> yields when iterated to the end.\<close>

definition take_it :: "'a list \<Rightarrow> int \<Rightarrow> 'a list" where
  "take_it iterable n = fst (drain n (take_init iterable))"

section \<open>lists.js\<close>

fun all_js :: "'a list \<Rightarrow> ('a \<Rightarrow> bool) \<Rightarrow> bool" where
  "all_js [] fun = True"
| "all_js (element # rest) fun = (if \<not> fun element then False else all_js rest fun)"

fun any_js :: "'a list \<Rightarrow> ('a \<Rightarrow> bool) \<Rightarrow> bool" where
  "any_js [] fun = False"
| "any_js (element # rest) fun = (if fun element then True else any_js rest fun)"

text \<open>
  \<open>chunkEvery\<close> of lists.js reads \<open>currents[currents.length - 1].length\<close> without the
  \<open>?.\<close> of streams.ts: with no window open the read of \<open>.length\<close> on \<open>undefined\<close>
  throws a TypeError. The result is the list of the chunks yielded, and the exception
  that ends the iteration when one is thrown.
\<close>

fun chunkEvery_js_loop ::
  "'a list \<Rightarrow> int \<Rightarrow> int \<Rightarrow> 'a list list \<Rightarrow> int \<Rightarrow> 'a list list \<times> error option" where
  "chunkEvery_js_loop [] count step currents i = (currents, None)"
| "chunkEvery_js_loop (item # rest) count step currents i =
     (let opened = (if js_rem i step = Some 0 then [] # currents else currents);
          pushed = map (\<lambda>current. current @ [item]) opened
      in if pushed = [] then ([], Some TypeError)
         else if int (length (last pushed)) = count
         then (case chunkEvery_js_loop rest count step (butlast pushed) (i + 1) of
                 (chunks, thrown) \<Rightarrow> (last pushed # chunks, thrown))
         else chunkEvery_js_loop rest count step pushed (i + 1))"

definition chunkEvery_js ::
  "'a list \<Rightarrow> int \<Rightarrow> int option \<Rightarrow> 'a list list \<times> error option" where
  "chunkEvery_js iterable count step =
     chunkEvery_js_loop iterable count (case step of None \<Rightarrow> count | Some s \<Rightarrow> s) [] 0"

text \<open>The loop of \<open>dropEvery\<close> of lists.js: \<open>++count % n !== 0\<close>.\<close>

fun dropEvery_js_loop :: "'a list \<Rightarrow> int \<Rightarrow> int \<Rightarrow> 'a list" where
  "dropEvery_js_loop [] n count = []"
| "dropEvery_js_loop (item # rest) n count =
     (if js_rem (count + 1) n \<noteq> Some 0 then item # dropEvery_js_loop rest n (count + 1)
      else dropEvery_js_loop rest n (count + 1))"

definition dropEvery_js :: "'a list \<Rightarrow> int \<Rightarrow> 'a list" where
  "dropEvery_js iterable n = dropEvery_js_loop iterable n 0"

section \<open>take and drop\<close>

declare drain.simps [simp del]

lemma drop_loop_drop: "drop_loop xs n c = drop (nat (n - c)) xs"
proof (induction xs arbitrary: c)
  case Nil
  show ?case by simp
next
  case (Cons x xs)
  have "c < n \<Longrightarrow> nat (n - c) = Suc (nat (n - (c + 1)))" by simp
  with Cons show ?case by (simp add: not_le)
qed

lemma drop_it_drop: "drop_it xs n = drop (nat n) xs"
  by (simp add: drop_it_def drop_loop_drop)

text \<open>
  A generator of \<open>take\<close> that has not finished, iterated to the end: what it yields,
  and how often it calls \<open>next()\<close> on its source.
\<close>

lemma drain_running:
  "\<not> finished g \<Longrightarrow>
     fst (drain n g) = take (nat (n - counter g)) (upstream g) \<and>
     requested (snd (drain n g)) =
       requested g + min (nat (n - counter g)) (length (upstream g)) + 1"
proof (induction "upstream g" arbitrary: g)
  case Nil
  then show ?case by (simp add: drain.simps [of n g] take_next_def)
next
  case (Cons item rest)
  show ?case
  proof (cases "counter g \<ge> n")
    case True
    with Cons.prems Cons.hyps(2) [symmetric] show ?thesis
      by (simp add: drain.simps [of n g] take_next_def)
  next
    case False
    let ?g' = "\<lparr>upstream = rest, counter = counter g + 1,
                 requested = requested g + 1, finished = False\<rparr>"
    have step: "take_next n g = (Some item, ?g')"
      using Cons.prems Cons.hyps(2) [symmetric] False by (simp add: take_next_def)
    have ih: "fst (drain n ?g') = take (nat (n - counter ?g')) (upstream ?g') \<and>
      requested (snd (drain n ?g')) =
        requested ?g' + min (nat (n - counter ?g')) (length (upstream ?g')) + 1"
      by (rule Cons.hyps(1)) simp_all
    have n: "nat (n - counter g) = Suc (nat (n - (counter g + 1)))"
      using False by simp
    show ?thesis
      using ih Cons.hyps(2) [symmetric] n
      by (simp add: drain.simps [of n g] step case_prod_beta)
  qed
qed

lemma take_it_take: "take_it xs n = take (nat n) xs"
  using drain_running [of "take_init xs" n] by (simp add: take_it_def take_init_def)

text \<open>
  Iterated to the end, \<open>take(xs, n)\<close> calls \<open>next()\<close> on its source once more than
  the number of elements it yields.
\<close>

lemma take_requested:
  "requested (snd (drain n (take_init xs))) = min (nat n) (length xs) + 1"
  using drain_running [of "take_init xs" n] by (simp add: take_init_def)

text \<open>
  C7. \<open>take(seq, n)\<close> is to yield the first \<open>n\<close> elements and never to request more
  than \<open>n\<close> elements from its source. On \<open>take([1, 2, 3], 2)\<close>, iterated to the end,
  the code yields 1 and 2, but it has called \<open>next()\<close> on the source three times and
  the third element has been taken out of the source: the loop tests \<open>count++ >= n\<close>
  only after \<open>for ... of\<close> has fetched the next item.
\<close>

theorem take_pulls_one_more:
  "fst (drain 2 (take_init [1, 2, 3 :: int])) = [1, 2] \<and>
   requested (snd (drain 2 (take_init [1, 2, 3 :: int]))) = 3 \<and>
   upstream (snd (drain 2 (take_init [1, 2, 3 :: int]))) = []"
  by (simp add: drain.simps take_next_def take_init_def)

text \<open>
  C8. For every finite sequence \<open>S\<close> and every \<open>n\<close> (in particular every \<open>n \<ge> 0\<close>),
  the elements yielded by \<open>take(S, n)\<close> followed by the elements yielded by
  \<open>drop(S, n)\<close> are \<open>S\<close>, element for element, in order.
\<close>

theorem take_drop_reproduces: "take_it S n @ drop_it S n = S"
  by (simp add: take_it_take drop_it_drop)

section \<open>all and any\<close>

text \<open>
  C10. On the empty sequence, for every predicate, \<open>all\<close> returns true and \<open>any\<close>
  returns false, in streams.ts and in lists.js.
\<close>

theorem all_any_empty:
  "all_it [] fun \<and> \<not> any_it [] fun \<and> all_js [] fun \<and> \<not> any_js [] fun"
  by (simp add: all_it_def any_it_def reject_def)

section \<open>dropEvery\<close>

text \<open>
  C2. \<open>dropEvery([1, 2, 3, 4, 5, 6], 3)\<close> is to yield 2, 3, 5, 6. In streams.ts the
  generator yields nothing: the body returns the concatenation (which is 2, 3, 5, 6)
  where it should delegate to it with \<open>yield*\<close>. In lists.js the loop drops the 3rd and
  the 6th element and yields 1, 2, 4, 5.
\<close>

theorem dropEvery_drops_wrong_elements:
  "yields (dropEvery [1, 2, 3, 4, 5, 6 :: int] 3) = [] \<and>
   returns (dropEvery [1, 2, 3, 4, 5, 6 :: int] 3) = [2, 3, 5, 6] \<and>
   dropEvery_js [1, 2, 3, 4, 5, 6 :: int] 3 = [1, 2, 4, 5]"
  by (simp add: dropEvery_def dropEvery_js_def chunkEvery_def js_rem_def drop_it_def Let_def)

section \<open>max and maxBy\<close>

text \<open>The body of \<open>maxBy\<close> is that of \<open>minBy\<close>, character for character.\<close>

lemma maxBy_is_minBy: "maxBy iterable fun sorter = minBy iterable fun sorter"
  by (simp add: maxBy_def minBy_def)

text \<open>
  C3. With the default comparator, \<open>maxBy(seq, x => x)\<close> is to return the element
  \<open>max(seq)\<close> returns. On 1, 3, 2 the code of \<open>maxBy\<close> returns 1, the least element,
  and \<open>max\<close> returns 3: \<open>max\<close> keeps \<open>b\<close> when \<open>sorter(a, b)\<close> holds, \<open>maxBy\<close>
  keeps \<open>a\<close>.
\<close>

theorem maxBy_returns_minimum:
  "maxBy [Val 1, Val 3, Val 2] id default_sorter = Val 1 \<and>
   max_it [Val 1, Val 3, Val 2] default_sorter = Val 3"
  by (simp add: maxBy_def max_it_def reduce_def default_sorter_def)

section \<open>dedup\<close>

lemma strict_eq_Undefined [simp]: "strict_eq v Undefined \<longleftrightarrow> v = Undefined"
  by (cases v) simp_all

text \<open>
  One more element \<open>e\<close> after \<open>pre\<close>: it is yielded exactly when its key is not
  strictly equal to \<open>lastValue\<close>, which is the key of the last element yielded so far,
  or the starting value when nothing has been yielded.
\<close>

lemma dedup_loop_snoc:
  "dedup_loop (pre @ [e]) fun lv =
     dedup_loop pre fun lv @
       (if strict_eq (fun e)
             (if dedup_loop pre fun lv = [] then lv else fun (last (dedup_loop pre fun lv)))
        then [] else [e])"
  by (induction pre arbitrary: lv) (simp_all add: Let_def)

text \<open>
  When the key of the first element is not \<open>undefined\<close> the first element is yielded,
  and the loop goes on with its key.
\<close>

lemma dedup_defined_first:
  "keyFn item \<noteq> Undefined \<Longrightarrow>
     dedup (item # rest) keyFn = item # dedup_loop rest keyFn (keyFn item)"
  by (simp add: dedup_def)

text \<open>
  C4. \<open>dedup\<close> is to yield the first element of every non-empty sequence, for every
  key function. On \<open>dedup([undefined, 1])\<close> with the identity as key function the code
  yields only 1: \<open>lastValue\<close> starts as \<open>undefined\<close> and the first element is
  compared with it like every other, so a first element whose key is \<open>undefined\<close> is
  taken for a repetition.
\<close>

theorem dedup_skips_undefined_first:
  "dedup [Undefined, Val (1::int)] id = [Val 1] \<and>
   hd (dedup [Undefined, Val (1::int)] id) \<noteq> hd [Undefined, Val (1::int)]"
  by (simp add: dedup_def)

section \<open>reduce\<close>

text \<open>
  As long as the accumulator is not \<open>undefined\<close> when the next item arrives, the loop
  is the left fold.
\<close>

lemma reduce_loop_foldl:
  "\<forall>k < length rest. foldl f acc (take k rest) \<noteq> Undefined \<Longrightarrow>
     reduce_loop rest f acc = foldl f acc rest"
proof (induction rest arbitrary: acc)
  case Nil
  show ?case by simp
next
  case (Cons item rest)
  from Cons.prems have acc: "acc \<noteq> Undefined" by force
  have "\<forall>k < length rest. foldl f (f acc item) (take k rest) \<noteq> Undefined"
  proof (intro allI impI)
    fix k assume "k < length rest"
    then have "Suc k < length (item # rest)" by simp
    with Cons.prems have "foldl f acc (take (Suc k) (item # rest)) \<noteq> Undefined"
      by blast
    then show "foldl f (f acc item) (take k rest) \<noteq> Undefined" by simp
  qed
  then have "reduce_loop rest f (f acc item) = foldl f (f acc item) rest"
    by (rule Cons.IH)
  with acc show ?case by simp
qed

lemma reduce_defined_accumulators:
  assumes "seq \<noteq> []"
    and "\<forall>k < length (tl seq). foldl f (hd seq) (take k (tl seq)) \<noteq> Undefined"
  shows "reduce seq f Undefined = foldl f (hd seq) (tl seq)"
proof -
  from assms(1) obtain e1 rest where seq: "seq = e1 # rest" by (cases seq) auto
  from assms(2) have "reduce_loop rest f e1 = foldl f e1 rest"
    by (intro reduce_loop_foldl) (simp add: seq)
  then show ?thesis by (simp add: seq reduce_def)
qed

text \<open>
  The test \<open>acc === undefined\<close> is made in every turn of the loop, also when an initial
  accumulator was given: a folding function that returns \<open>undefined\<close> makes the next
  item the accumulator.
\<close>

lemma reduce_reseeds_with_initial:
  "reduce [Val (1::int), Val 2] (\<lambda>acc x. Undefined) (Val 10) = Val 2"
  by (simp add: reduce_def)

text \<open>
  C5. \<open>reduce(seq, f)\<close> without an initial accumulator is to return the left fold of
  \<open>f\<close> over the second to the last element, seeded with the first. On
  \<open>reduce([undefined, 1, 2], (a, b) => a + b)\<close> the code takes the first element as
  the accumulator, finds the accumulator \<open>undefined\<close> at the second element, takes that
  one as the accumulator without applying \<open>f\<close>, and returns \<open>1 + 2\<close>; the left fold
  seeded with the first element is \<open>(undefined + 1) + 2\<close>, which is \<open>NaN\<close>.
\<close>

theorem reduce_reseeds_on_undefined:
  "reduce [Undefined, Val (1::int), Val 2] js_add Undefined = Val 3 \<and>
   foldl js_add (hd [Undefined, Val (1::int), Val 2]) (tl [Undefined, Val 1, Val 2]) = NaN"
  by (simp add: reduce_def)

section \<open>chunkEvery\<close>

text \<open>With a positive \<open>step\<close>, a window opens at every index that \<open>step\<close> divides.\<close>

lemma js_rem_nat: "0 < s \<Longrightarrow> js_rem (int k) (int s) = Some 0 \<longleftrightarrow> k mod s = 0"
proof -
  assume s: "0 < s"
  have "\<bar>int k\<bar> mod \<bar>int s\<bar> = int (k mod s)" by (simp add: zmod_int)
  then show ?thesis using s by (auto simp: js_rem_def sgn_if)
qed

lemma upt_Suc_shift: "[0..<Suc n] = 0 # map Suc [0..<n]"
  by (simp only: map_Suc_upt upt_conv_Cons zero_less_Suc)

text \<open>One turn of the loop.\<close>

lemma chunkEvery_loop_Cons:
  "pushed = map (\<lambda>current. current @ [item])
      (if js_rem i step = Some 0 then [] # currents else currents) \<Longrightarrow>
   chunkEvery_loop (item # rest) count step currents i =
     (if pushed \<noteq> [] \<and> int (length (last pushed)) = count
      then last pushed # chunkEvery_loop rest count step (butlast pushed) (i + 1)
      else chunkEvery_loop rest count step pushed (i + 1))"
  by (simp only: chunkEvery_loop.simps Let_def)

text \<open>The same for positive \<open>count\<close> and \<open>step\<close> given as naturals.\<close>

lemma chunkEvery_loop_step:
  "0 < s \<Longrightarrow>
   chunkEvery_loop (item # rest) (int c) (int s) currents (int k) =
     (let pushed = map (\<lambda>current. current @ [item])
                     (if k mod s = 0 then [] # currents else currents)
      in if pushed \<noteq> [] \<and> length (last pushed) = c
         then last pushed # chunkEvery_loop rest (int c) (int s) (butlast pushed) (int (Suc k))
         else chunkEvery_loop rest (int c) (int s) pushed (int (Suc k)))"
  by (simp add: js_rem_nat Let_def add.commute)

text \<open>
  With \<open>step = count\<close> at most one window is open: none when \<open>count\<close> divides the
  index, and otherwise the one holding the items since the last multiple of \<open>count\<close>.
\<close>

lemma tiling_loop:
  assumes c: "0 < c"
  shows "(k mod c = 0 \<and> currents = []) \<or> (\<exists>w. currents = [w] \<and> length w = k mod c \<and> k mod c \<noteq> 0) \<Longrightarrow>
    concat_it (chunkEvery_loop rest (int c) (int c) currents (int k)) = concat_it currents @ rest \<and>
    (\<forall>ch \<in> set (butlast (chunkEvery_loop rest (int c) (int c) currents (int k))). length ch = c) \<and>
    (\<forall>ch \<in> set (chunkEvery_loop rest (int c) (int c) currents (int k)). 0 < length ch \<and> length ch \<le> c)"
proof (induction rest arbitrary: currents k)
  case Nil
  then show ?case using c by (auto simp: less_imp_le)
next
  case (Cons item rest)
  let ?loop = "\<lambda>cs. chunkEvery_loop rest (int c) (int c) cs (int (Suc k))"
  have closed: "(Suc k mod c = 0 \<and> ([]::'a list list) = []) \<or>
      (\<exists>w. ([]::'a list list) = [w] \<and> length w = Suc k mod c \<and> Suc k mod c \<noteq> 0)"
    if "Suc k mod c = 0"
    using that by simp
  have opened: "(Suc k mod c = 0 \<and> [v] = []) \<or>
      (\<exists>w. [v] = [w] \<and> length w = Suc k mod c \<and> Suc k mod c \<noteq> 0)"
    if "length v = Suc k mod c" "Suc k mod c \<noteq> 0" for v :: "'a list"
    using that by simp
  show ?case
  proof (cases "k mod c = 0")
    case True
    with Cons.prems have cur: "currents = []" by auto
    show ?thesis
    proof (cases "c = 1")
      case True
      have st: "chunkEvery_loop (item # rest) (int c) (int c) currents (int k) = [item] # ?loop []"
        by (subst chunkEvery_loop_step [OF c]) (simp add: cur \<open>k mod c = 0\<close> True)
      have "Suc k mod c = 0" using True by simp
      from Cons.IH [OF closed [OF this]] True show ?thesis
        unfolding st by (simp add: cur)
    next
      case False
      have st: "chunkEvery_loop (item # rest) (int c) (int c) currents (int k) = ?loop [[item]]"
        using False by (subst chunkEvery_loop_step [OF c]) (auto simp add: cur \<open>k mod c = 0\<close>)
      from False c \<open>k mod c = 0\<close> have "Suc k mod c = 1" by (simp add: mod_Suc)
      then have "length [item] = Suc k mod c" "Suc k mod c \<noteq> 0" by simp_all
      from Cons.IH [OF opened [OF this]] show ?thesis
        unfolding st by (simp add: cur)
    qed
  next
    case False
    with Cons.prems obtain w where cur: "currents = [w]" and w: "length w = k mod c" by auto
    show ?thesis
    proof (cases "Suc (k mod c) = c")
      case True
      have st: "chunkEvery_loop (item # rest) (int c) (int c) currents (int k) = (w @ [item]) # ?loop []"
        by (subst chunkEvery_loop_step [OF c]) (simp add: cur False w True)
      from True have "Suc k mod c = 0" by (simp add: mod_Suc)
      from Cons.IH [OF closed [OF this]] True w show ?thesis
        unfolding st by (simp add: cur)
    next
      case nf: False
      have st: "chunkEvery_loop (item # rest) (int c) (int c) currents (int k) = ?loop [w @ [item]]"
        by (subst chunkEvery_loop_step [OF c]) (simp add: cur False w nf)
      from nf have "Suc k mod c = Suc (k mod c)" by (simp add: mod_Suc)
      then have "length (w @ [item]) = Suc k mod c" "Suc k mod c \<noteq> 0" using w by simp_all
      from Cons.IH [OF opened [OF this]] show ?thesis
        unfolding st by (simp add: cur)
    qed
  qed
qed

text \<open>
  C9. For every finite sequence \<open>S\<close> and every positive \<open>count\<close>, the chunks of
  \<open>chunkEvery(S, count, count)\<close>, concatenated, are \<open>S\<close>; every chunk but the last
  has \<open>count\<close> elements, and the last has between one and \<open>count\<close>. Leaving \<open>step\<close>
  out gives the same chunks.
\<close>

theorem chunkEvery_tiling:
  assumes "0 < count"
  shows "concat_it (chunkEvery S count (Some count)) = S \<and>
         (\<forall>chunk \<in> set (butlast (chunkEvery S count (Some count))). int (length chunk) = count) \<and>
         (chunkEvery S count (Some count) \<noteq> [] \<longrightarrow>
            0 < length (last (chunkEvery S count (Some count))) \<and>
            int (length (last (chunkEvery S count (Some count)))) \<le> count) \<and>
         chunkEvery S count None = chunkEvery S count (Some count)"
proof -
  define c where "c = nat count"
  with assms have count: "count = int c" and c: "0 < c" by simp_all
  have "(0 mod c = 0 \<and> ([]::'a list list) = []) \<or> (\<exists>w. ([]::'a list list) = [w] \<and> length w = 0 mod c \<and> 0 mod c \<noteq> 0)"
    by simp
  from tiling_loop [OF c this, of S]
  show ?thesis by (auto simp: chunkEvery_def count)
qed

theorem chunkEvery_tiling_witness:
  "concat_it (chunkEvery [1, 2, 3, 4, 5, 6, 7 :: int] 3 (Some 3)) = [1, 2, 3, 4, 5, 6, 7] \<and>
   chunkEvery [1, 2, 3, 4, 5, 6, 7 :: int] 3 (Some 3) = [[1, 2, 3], [4, 5, 6], [7]]"
proof -
  have h: "(0::int) < 3" by simp
  have "chunkEvery [1, 2, 3, 4, 5, 6, 7 :: int] 3 (Some 3) = [[1, 2, 3], [4, 5, 6], [7]]"
    by (simp add: chunkEvery_def js_rem_def Let_def)
  with chunkEvery_tiling [of 3 "[1, 2, 3, 4, 5, 6, 7 :: int]", OF h] show ?thesis by simp
qed

subsection \<open>Every window is emitted\<close>

text \<open>The indices at which a window opens, split at the first item.\<close>

lemma starts_Suc:
  "{p. p < Suc n \<and> (k + p) mod s = 0} =
     (if k mod s = 0 then {0} else {}) \<union> Suc ` {q. q < n \<and> (Suc k + q) mod s = (0::nat)}"
proof (intro set_eqI iffI)
  fix p assume "p \<in> {p. p < Suc n \<and> (k + p) mod s = 0}"
  then show "p \<in> (if k mod s = 0 then {0} else {}) \<union> Suc ` {q. q < n \<and> (Suc k + q) mod s = 0}"
    by (cases p) auto
next
  fix p assume "p \<in> (if k mod s = 0 then {0} else {}) \<union> Suc ` {q. q < n \<and> (Suc k + q) mod s = 0}"
  then show "p \<in> {p. p < Suc n \<and> (k + p) mod s = 0}"
    by (auto split: if_splits)
qed

lemma windows_Cons:
  "(\<lambda>p. take c (drop p (item # rest))) ` {p. p < length (item # rest) \<and> (k + p) mod s = 0} =
     (if k mod s = 0 then {take c (item # rest)} else {}) \<union>
     (\<lambda>p. take c (drop p rest)) ` {p. p < length rest \<and> (Suc k + p) mod s = 0}"
  by (simp add: starts_Suc image_Un image_image)

text \<open>After the push every window has at least one and at most \<open>c\<close> elements.\<close>

lemma pushed_inv:
  assumes "open_inv c currents" and "0 < c"
    and "pushed = map (\<lambda>current. current @ [item]) (if b then [] # currents else currents)"
  shows "sorted_wrt (\<lambda>a b. length a < length b) pushed"
    and "\<forall>w \<in> set pushed. 0 < length w \<and> length w \<le> c"
  using assms by (auto simp: open_inv_def sorted_wrt_map)

lemma sorted_last_greatest:
  assumes "sorted_wrt (\<lambda>a b. length a < length b) ws" "ws \<noteq> []"
  shows "\<forall>w \<in> set (butlast ws). length w < length (last ws)"
proof -
  from assms(2) have "ws = butlast ws @ [last ws]" by simp
  with assms(1) have "sorted_wrt (\<lambda>a b. length a < length b) (butlast ws @ [last ws])" by simp
  then show ?thesis by (simp add: sorted_wrt_append)
qed

lemma sorted_butlast:
  assumes "sorted_wrt P ws"
  shows "sorted_wrt P (butlast ws)"
proof (cases "ws = []")
  case True then show ?thesis by simp
next
  case False
  then have "ws = butlast ws @ [last ws]" by simp
  with assms have "sorted_wrt P (butlast ws @ [last ws])" by simp
  then show ?thesis by (simp add: sorted_wrt_append)
qed

text \<open>
  What the loop emits from \<open>rest\<close> on: every window that is open, completed from
  \<open>rest\<close> as far as \<open>rest\<close> goes, and every window that opens within \<open>rest\<close>.
\<close>

lemma chunkEvery_loop_set:
  assumes c: "0 < c" and s: "0 < s"
  shows "open_inv c currents \<Longrightarrow>
    set (chunkEvery_loop rest (int c) (int s) currents (int k)) =
      (\<lambda>w. w @ take (c - length w) rest) ` set currents \<union>
      (\<lambda>p. take c (drop p rest)) ` {p. p < length rest \<and> (k + p) mod s = 0}"
proof (induction rest arbitrary: currents k)
  case Nil
  show ?case by simp
next
  case (Cons item rest)
  let ?opened = "if k mod s = 0 then [] # currents else currents"
  define pushed where "pushed = map (\<lambda>current. current @ [item]) ?opened"
  let ?f = "\<lambda>w. w @ take (c - length w) rest"
  let ?g = "\<lambda>w. w @ take (c - length w) (item # rest)"
  let ?W = "(\<lambda>p. take c (drop p rest)) ` {p. p < length rest \<and> (Suc k + p) mod s = 0}"
  have srt: "sorted_wrt (\<lambda>a b. length a < length b) pushed"
    and len: "\<forall>w \<in> set pushed. 0 < length w \<and> length w \<le> c"
    using pushed_inv [OF Cons.prems c pushed_def] by blast+
  have fg: "?f ` set pushed = ?g ` set ?opened"
  proof -
    have "?f (w @ [item]) = ?g w" if "w \<in> set ?opened" for w
    proof -
      from that Cons.prems c have "length w < c"
        by (auto simp: open_inv_def split: if_splits)
      then have "c - length w = Suc (c - length (w @ [item]))" by simp
      then show ?thesis by simp
    qed
    then have "(\<lambda>w. ?f (w @ [item])) ` set ?opened = ?g ` set ?opened"
      by (intro image_cong refl)
    moreover have "?f ` set pushed = (\<lambda>w. ?f (w @ [item])) ` set ?opened"
      by (simp only: pushed_def set_map image_image)
    ultimately show ?thesis by simp
  qed
  have opened: "?g ` set ?opened =
      ?g ` set currents \<union> (if k mod s = 0 then {take c (item # rest)} else {})"
    by auto
  have goal: "?f ` set pushed \<union> ?W =
      ?g ` set currents \<union>
      (\<lambda>p. take c (drop p (item # rest))) ` {p. p < length (item # rest) \<and> (k + p) mod s = 0}"
    unfolding fg opened windows_Cons by blast
  show ?case
  proof (cases "pushed \<noteq> [] \<and> length (last pushed) = c")
    case True
    then have ne: "pushed \<noteq> []" and full: "length (last pushed) = c" by simp_all
    have st: "chunkEvery_loop (item # rest) (int c) (int s) currents (int k) =
        last pushed # chunkEvery_loop rest (int c) (int s) (butlast pushed) (int (Suc k))"
      using True by (subst chunkEvery_loop_step [OF s]) (simp add: pushed_def [symmetric])
    have inv: "open_inv c (butlast pushed)"
      unfolding open_inv_def
      using sorted_butlast [OF srt] sorted_last_greatest [OF srt ne] len full
      by (auto dest: in_set_butlastD)
    have fl: "?f (last pushed) = last pushed" using full by simp
    have sp: "set pushed = insert (last pushed) (set (butlast pushed))"
      using ne by (metis append_butlast_last_id list.simps(15) rotate1.simps(2) set_rotate1)
    have "?f ` set pushed = insert (?f (last pushed)) (?f ` set (butlast pushed))"
      by (subst sp) (rule image_insert)
    also have "\<dots> = insert (last pushed) (?f ` set (butlast pushed))"
      by (simp only: fl)
    finally have ins: "insert (last pushed) (?f ` set (butlast pushed)) = ?f ` set pushed"
      by (rule sym)
    from Cons.IH [OF inv, of "Suc k"]
    have "set (chunkEvery_loop (item # rest) (int c) (int s) currents (int k)) =
        insert (last pushed) (?f ` set (butlast pushed)) \<union> ?W"
      unfolding st by simp
    also have "\<dots> = ?f ` set pushed \<union> ?W" by (simp only: ins)
    also note goal
    finally show ?thesis .
  next
    case False
    have st: "chunkEvery_loop (item # rest) (int c) (int s) currents (int k) =
        chunkEvery_loop rest (int c) (int s) pushed (int (Suc k))"
      using False by (subst chunkEvery_loop_step [OF s]) (auto simp add: pushed_def [symmetric])
    have inv: "open_inv c pushed"
    proof (cases "pushed = []")
      case True
      then show ?thesis by (simp add: open_inv_def)
    next
      case ne: False
      with False have "length (last pushed) \<noteq> c" by simp
      moreover from ne have "last pushed \<in> set pushed" by simp
      ultimately have "length (last pushed) < c" using len by force
      moreover have "w \<in> set pushed \<Longrightarrow> w = last pushed \<or> w \<in> set (butlast pushed)" for w
        using ne by (metis append_butlast_last_id in_set_conv_decomp rotate1.simps(2) set_ConsD set_rotate1)
      ultimately show ?thesis
        unfolding open_inv_def using srt len sorted_last_greatest [OF srt ne]
        by (metis less_trans)
    qed
    from Cons.IH [OF inv, of "Suc k"]
    have "set (chunkEvery_loop (item # rest) (int c) (int s) currents (int k)) =
        ?f ` set pushed \<union> ?W"
      unfolding st by simp
    also note goal
    finally show ?thesis .
  qed
qed

text \<open>
  Every window that opens is emitted once, on reaching \<open>count\<close> elements or at
  exhaustion: there are as many chunks as windows, whatever \<open>count\<close> and \<open>step\<close>.
\<close>

lemma chunkEvery_loop_length:
  "length (chunkEvery_loop rest count step currents i) =
     length currents +
     length (filter (\<lambda>p. js_rem (i + int p) step = Some 0) [0..<length rest])"
proof (induction rest arbitrary: currents i)
  case Nil
  show ?case by simp
next
  case (Cons item rest)
  define pushed where "pushed = map (\<lambda>current. current @ [item])
      (if js_rem i step = Some 0 then [] # currents else currents)"
  let ?n = "length (filter (\<lambda>p. js_rem (i + 1 + int p) step = Some 0) [0..<length rest])"
  have "length (chunkEvery_loop (item # rest) count step currents i) = length pushed + ?n"
  proof (cases "pushed \<noteq> [] \<and> int (length (last pushed)) = count")
    case True
    then have "chunkEvery_loop (item # rest) count step currents i =
        last pushed # chunkEvery_loop rest count step (butlast pushed) (i + 1)"
      by (simp add: chunkEvery_loop_Cons [OF pushed_def] del: chunkEvery_loop.simps)
    moreover from True have "Suc (length (butlast pushed)) = length pushed"
      by simp
    ultimately show ?thesis by (simp add: Cons.IH)
  next
    case False
    then have "chunkEvery_loop (item # rest) count step currents i =
        chunkEvery_loop rest count step pushed (i + 1)"
      by (auto simp add: chunkEvery_loop_Cons [OF pushed_def] simp del: chunkEvery_loop.simps)
    then show ?thesis by (simp only: Cons.IH)
  qed
  also have "length pushed + ?n =
      length currents +
      length (filter (\<lambda>p. js_rem (i + int p) step = Some 0) [0..<length (item # rest)])"
    by (simp add: pushed_def upt_Suc_shift filter_map comp_def ac_simps del: upt_Suc)
  finally show ?case .
qed

lemma window_count:
  assumes "0 < s"
  shows "length (filter (\<lambda>p. js_rem (0 + int p) (int s) = Some 0) [0..<n]) = card {j. j * s < n}"
proof -
  have "length (filter (\<lambda>p. js_rem (0 + int p) (int s) = Some 0) [0..<n]) =
      card (set (filter (\<lambda>p. js_rem (0 + int p) (int s) = Some 0) [0..<n]))"
    by (rule distinct_card [symmetric]) simp
  also have "set (filter (\<lambda>p. js_rem (0 + int p) (int s) = Some 0) [0..<n]) =
      (\<lambda>j. j * s) ` {j. j * s < n}"
    using assms by (auto simp: js_rem_nat image_iff mod_eq_0_iff_dvd mult.commute elim!: dvdE)
  also have "card \<dots> = card {j. j * s < n}"
    using assms by (intro card_image inj_onI) simp
  finally show ?thesis .
qed

subsection \<open>lists.js\<close>

lemma chunkEvery_js_loop_step:
  "0 < s \<Longrightarrow>
   chunkEvery_js_loop (item # rest) (int c) (int s) currents (int k) =
     (let pushed = map (\<lambda>current. current @ [item])
                     (if k mod s = 0 then [] # currents else currents)
      in if pushed = [] then ([], Some TypeError)
         else if length (last pushed) = c
         then (case chunkEvery_js_loop rest (int c) (int s) (butlast pushed) (int (Suc k)) of
                 (chunks, thrown) \<Rightarrow> (last pushed # chunks, thrown))
         else chunkEvery_js_loop rest (int c) (int s) pushed (int (Suc k)))"
  by (simp add: js_rem_nat Let_def add.commute)

text \<open>
  With \<open>step \<le> count\<close> a window is open whenever the test reads the last one, so the
  read of lists.js never fails and both versions emit the same chunks.
\<close>

lemma chunkEvery_js_loop_agrees:
  assumes s: "0 < s" and sc: "s \<le> c"
  shows "(k mod s \<noteq> 0 \<longrightarrow> currents \<noteq> [] \<and> length (hd currents) = k mod s) \<Longrightarrow>
    chunkEvery_js_loop rest (int c) (int s) currents (int k) =
      (chunkEvery_loop rest (int c) (int s) currents (int k), None)"
proof (induction rest arbitrary: currents k)
  case Nil
  show ?case by simp
next
  case (Cons item rest)
  define pushed where
    "pushed = map (\<lambda>current. current @ [item]) (if k mod s = 0 then [] # currents else currents)"
  from Cons.prems have ne: "pushed \<noteq> []"
    by (auto simp: pushed_def)
  from Cons.prems have hd_len: "length (hd pushed) = Suc (k mod s)"
    by (auto simp: pushed_def hd_map)
  have next_mod: "Suc k mod s = Suc (k mod s)" "Suc (k mod s) < c" if "Suc k mod s \<noteq> 0"
  proof -
    from that show m: "Suc k mod s = Suc (k mod s)" by (simp add: mod_Suc split: if_splits)
    have "Suc k mod s < s" using s by simp
    with m sc show "Suc (k mod s) < c" by simp
  qed
  show ?case
  proof (cases "length (last pushed) = c")
    case True
    have inv: "Suc k mod s \<noteq> 0 \<longrightarrow>
        butlast pushed \<noteq> [] \<and> length (hd (butlast pushed)) = Suc k mod s"
    proof
      assume nz: "Suc k mod s \<noteq> 0"
      from next_mod [OF nz] hd_len True have "hd pushed \<noteq> last pushed" by auto
      with ne obtain w ws where p: "pushed = w # ws" "ws \<noteq> []"
        by (cases pushed) (auto split: if_splits)
      then show "butlast pushed \<noteq> [] \<and> length (hd (butlast pushed)) = Suc k mod s"
        using hd_len next_mod(1) [OF nz] by simp
    qed
    show ?thesis
      using ne True Cons.IH [OF inv]
      by (simp add: chunkEvery_js_loop_step [OF s] chunkEvery_loop_step [OF s]
          pushed_def [symmetric] del: chunkEvery_loop.simps chunkEvery_js_loop.simps)
  next
    case False
    have inv: "Suc k mod s \<noteq> 0 \<longrightarrow> pushed \<noteq> [] \<and> length (hd pushed) = Suc k mod s"
      using ne hd_len next_mod(1) by simp
    show ?thesis
      using ne False Cons.IH [OF inv]
      by (simp add: chunkEvery_js_loop_step [OF s] chunkEvery_loop_step [OF s]
          pushed_def [symmetric] del: chunkEvery_loop.simps chunkEvery_js_loop.simps)
  qed
qed

text \<open>
  With \<open>step > count\<close> the elements between two windows are in no chunk, and
  lists.js fails at the first item that no window takes, after the chunks yielded so far.
\<close>

lemma chunkEvery_step_beyond_count:
  "chunkEvery [1, 2, 3 :: int] 1 (Some 2) = [[1], [3]]"
  by (simp add: chunkEvery_def js_rem_def Let_def)

lemma chunkEvery_js_throws:
  "chunkEvery_js [1, 2, 3 :: int] 1 (Some 2) = ([[1]], Some TypeError)"
  by (simp add: chunkEvery_js_def js_rem_def Let_def)

subsection \<open>The set of chunks\<close>

text \<open>
  For positive \<open>count = c\<close> and \<open>step = s\<close>, the set of the chunks emitted is the set
  of the windows that start at the multiples of \<open>s\<close> within the input, each holding
  the \<open>c\<close> elements from its start, or the elements up to the end of the input where
  fewer than \<open>c\<close> remain, and there are as many chunks as such windows. When
  \<open>s \<le> c\<close> the element at every position is in an emitted chunk, and lists.js
  emits the same chunks. Nothing is said here about the order of the chunks.
\<close>

lemma chunkEvery_windows:
  assumes "0 < c" and "0 < s"
  shows "set (chunkEvery xs (int c) (Some (int s))) =
           {take c (drop (j * s) xs) | j. j * s < length xs} \<and>
         length (chunkEvery xs (int c) (Some (int s))) = card {j. j * s < length xs} \<and>
         (s \<le> c \<longrightarrow>
            (\<forall>p < length xs. \<exists>j. take c (drop (j * s) xs) \<in> set (chunkEvery xs (int c) (Some (int s))) \<and>
                j * s \<le> p \<and> p - j * s < length (take c (drop (j * s) xs)) \<and>
                take c (drop (j * s) xs) ! (p - j * s) = xs ! p) \<and>
            chunkEvery_js xs (int c) (Some (int s)) = (chunkEvery xs (int c) (Some (int s)), None))"
proof -
  have inv: "open_inv c []" by (simp add: open_inv_def)
  have starts: "{p. p < length xs \<and> (0 + p) mod s = 0} = (\<lambda>j. j * s) ` {j. j * s < length xs}"
    using assms(2) by (auto simp: image_iff mod_eq_0_iff_dvd mult.commute elim!: dvdE)
  have windows: "set (chunkEvery xs (int c) (Some (int s))) =
      {take c (drop (j * s) xs) | j. j * s < length xs}"
    using chunkEvery_loop_set [OF assms inv, of xs 0]
    unfolding starts by (auto simp: chunkEvery_def image_iff)
  have covered: "\<exists>j. take c (drop (j * s) xs) \<in> set (chunkEvery xs (int c) (Some (int s))) \<and>
      j * s \<le> p \<and> p - j * s < length (take c (drop (j * s) xs)) \<and>
      take c (drop (j * s) xs) ! (p - j * s) = xs ! p"
    if "s \<le> c" "p < length xs" for p
  proof -
    let ?j = "p div s"
    have le: "?j * s \<le> p" by simp
    have start: "?j * s < length xs" using le that(2) by (rule le_less_trans)
    have "p - ?j * s = p mod s" by (simp add: minus_div_mult_eq_mod)
    moreover have "p mod s < s" using assms(2) by simp
    ultimately have off: "p - ?j * s < c" using that(1) by simp
    have off2: "p - ?j * s < length xs - ?j * s" using that(2) le by (rule diff_less_mono)
    have "take c (drop (?j * s) xs) \<in> set (chunkEvery xs (int c) (Some (int s)))"
      unfolding windows using start by blast
    moreover have "p - ?j * s < length (take c (drop (?j * s) xs))"
      using off off2 by simp
    moreover have "take c (drop (?j * s) xs) ! (p - ?j * s) = xs ! p"
    proof -
      have "?j * s + (p - ?j * s) = p" using le by (rule le_add_diff_inverse)
      moreover have "?j * s \<le> length xs" using start by (rule less_imp_le)
      ultimately have "drop (?j * s) xs ! (p - ?j * s) = xs ! p"
        by (simp only: nth_drop)
      with off show ?thesis by (simp only: nth_take)
    qed
    ultimately show ?thesis using le by blast
  qed
  have js: "chunkEvery_js xs (int c) (Some (int s)) = (chunkEvery xs (int c) (Some (int s)), None)"
    if "s \<le> c"
    using chunkEvery_js_loop_agrees [OF assms(2) that, of 0 "[]" xs]
    by (simp add: chunkEvery_js_def chunkEvery_def)
  have number: "length (chunkEvery xs (int c) (Some (int s))) = card {j. j * s < length xs}"
    using chunkEvery_loop_length [of xs "int c" "int s" "[]" 0] window_count [OF assms(2), of "length xs"]
    by (simp add: chunkEvery_def)
  from windows number covered js show ?thesis by blast
qed

subsection \<open>Trailing windows\<close>

text \<open>
  C1. When the source is exhausted the windows that never reached \<open>count\<close> elements
  are to be emitted oldest-opened first. On \<open>chunkEvery([1, 2, 3], 3, 1)\<close> the windows
  opened at the second and at the third element are left open, holding \<open>[2, 3]\<close> and
  \<open>[3]\<close>; the code emits \<open>[3]\<close> before \<open>[2, 3]\<close>, in streams.ts and in lists.js:
  \<open>unshift\<close> puts the newest window first in \<open>currents\<close>, a full window is taken
  from the end of \<open>currents\<close>, and the final loop runs from the front.
\<close>

theorem chunkEvery_drains_newest_first:
  "chunkEvery [1, 2, 3 :: int] 3 (Some 1) = [[1, 2, 3], [3], [2, 3]] \<and>
   chunkEvery_js [1, 2, 3 :: int] 3 (Some 1) = ([[1, 2, 3], [3], [2, 3]], None)"
  by (simp add: chunkEvery_def chunkEvery_js_def js_rem_def Let_def)

section \<open>Non-positive arguments\<close>

text \<open>
  No function of the source tests \<open>count\<close>, \<open>step\<close> or \<open>n\<close>, and none throws.
  With \<open>count \<le> 0\<close> no window ever has \<open>count\<close> elements after the push.
\<close>

lemma pushed_never_full:
  assumes "count \<le> 0"
  shows "\<not> (map (\<lambda>current. current @ [item]) opened \<noteq> [] \<and>
            int (length (last (map (\<lambda>current. current @ [item]) opened))) = count)"
proof (cases "opened = []")
  case True
  then show ?thesis by simp
next
  case False
  then have "last (map (\<lambda>current. current @ [item]) opened) = last opened @ [item]"
    by (simp add: last_map)
  with assms show ?thesis by simp
qed

text \<open>
  So the loop closes no window, and what it emits is what is in \<open>currents\<close> at the
  end: every window it has opened, each holding the input from its start to the end.
\<close>

lemma chunkEvery_loop_never_fills:
  assumes "count \<le> 0"
  shows "chunkEvery_loop rest count step currents i =
     map (\<lambda>p. drop p rest)
       (rev (filter (\<lambda>p. js_rem (i + int p) step = Some 0) [0..<length rest])) @
     map (\<lambda>w. w @ rest) currents"
proof (induction rest arbitrary: currents i)
  case Nil
  show ?case by simp
next
  case (Cons item rest)
  let ?opened = "if js_rem i step = Some 0 then [] # currents else currents"
  let ?pushed = "map (\<lambda>current. current @ [item]) ?opened"
  have "chunkEvery_loop (item # rest) count step currents i =
      chunkEvery_loop rest count step ?pushed (i + 1)"
    using pushed_never_full [OF assms, of item ?opened]
    by (simp only: chunkEvery_loop.simps Let_def if_False)
  also have "\<dots> =
      map (\<lambda>p. drop p rest)
        (rev (filter (\<lambda>p. js_rem (i + 1 + int p) step = Some 0) [0..<length rest])) @
      map (\<lambda>w. w @ rest) ?pushed"
    by (rule Cons.IH)
  also have "map (\<lambda>w. w @ rest) ?pushed =
      (if js_rem i step = Some 0 then [item # rest] else []) @
      map (\<lambda>w. w @ item # rest) currents"
    by simp
  also have "map (\<lambda>p. drop p rest)
        (rev (filter (\<lambda>p. js_rem (i + 1 + int p) step = Some 0) [0..<length rest])) @
      ((if js_rem i step = Some 0 then [item # rest] else []) @
       map (\<lambda>w. w @ item # rest) currents) =
      map (\<lambda>p. drop p (item # rest))
        (rev (filter (\<lambda>p. js_rem (i + int p) step = Some 0) [0..<length (item # rest)])) @
      map (\<lambda>w. w @ item # rest) currents"
    by (simp add: upt_Suc_shift filter_map rev_map comp_def ac_simps
        del: upt_Suc)
  finally show ?case .
qed

text \<open>With \<open>step = 0\<close> the remainder \<open>i % step\<close> is \<open>NaN\<close> and no window opens.\<close>

lemma chunkEvery_loop_step_zero: "chunkEvery_loop rest count 0 [] i = []"
  by (induction rest arbitrary: i) (simp_all add: js_rem_def)

text \<open>In lists.js the first pull then reads the length of a window that is not there.\<close>

lemma chunkEvery_js_step_zero:
  "chunkEvery_js (item # rest) count (Some 0) = ([], Some TypeError)"
  by (simp add: chunkEvery_js_def js_rem_def)

text \<open>The chunks for \<open>count \<le> 0\<close>, as a set; no two of them are equal.\<close>

lemma chunkEvery_never_fills_set:
  assumes "count \<le> 0"
  shows "set (chunkEvery seq count (Some step)) =
           {drop p seq | p. p < length seq \<and> js_rem (int p) step = Some 0}"
    and "distinct (chunkEvery seq count (Some step))"
proof -
  let ?starts = "filter (\<lambda>p. js_rem (int p) step = Some 0) [0..<length seq]"
  have eq: "chunkEvery seq count (Some step) = map (\<lambda>p. drop p seq) (rev ?starts)"
    using chunkEvery_loop_never_fills [OF assms, of seq step "[]" 0]
    by (simp add: chunkEvery_def)
  show "set (chunkEvery seq count (Some step)) =
      {drop p seq | p. p < length seq \<and> js_rem (int p) step = Some 0}"
    unfolding eq by auto
  have "inj_on (\<lambda>p. drop p seq) (set (rev ?starts))"
  proof (rule inj_onI)
    fix p q
    assume p: "p \<in> set (rev ?starts)" and q: "q \<in> set (rev ?starts)"
      and same: "drop p seq = drop q seq"
    from same have "length (drop p seq) = length (drop q seq)" by simp
    moreover from p q have "p < length seq" "q < length seq" by simp_all
    ultimately show "p = q" by simp
  qed
  moreover have "distinct (rev ?starts)" by simp
  ultimately show "distinct (chunkEvery seq count (Some step))"
    unfolding eq by (simp add: distinct_map)
qed

text \<open>
  C6, as the claim states it, fails: \<open>take(seq, 0)\<close> is constructed, and its first pull
  takes one element from the source and reports that it is done; \<open>chunkEvery\<close> with
  \<open>count = 0\<close> and \<open>step = 0\<close> emits nothing, and with \<open>count = -1\<close> it emits three
  chunks. No error is raised.
\<close>

theorem take_zero_is_not_rejected:
  "take_next 0 (take_init [1, 2, 3 :: int]) =
     (None, \<lparr>upstream = [], counter = 1, requested = 1, finished = True\<rparr>) \<and>
   take_it [1, 2, 3 :: int] 0 = [] \<and>
   chunkEvery [1, 2, 3 :: int] 0 (Some 0) = [] \<and>
   chunkEvery [1, 2, 3 :: int] (- 1) (Some 1) = [[3], [2, 3], [1, 2, 3]]"
  by (simp add: take_next_def take_init_def take_it_def drain.simps chunkEvery_def js_rem_def Let_def)

text \<open>
  C6, amended. Non-positive arguments are not validated and nothing is rejected: the
  operators are constructed and run. For \<open>n \<le> 0\<close>, \<open>take(seq, n)\<close> reports at its
  first pull that it is done and emits nothing, and \<open>drop(seq, n)\<close> emits every
  element. \<open>chunkEvery\<close> with \<open>step = 0\<close> emits nothing, and \<open>chunkEvery\<close> with
  \<open>count \<le> 0\<close> emits exactly one chunk for every index at which a window opens,
  holding the input from that index to the end.
\<close>

theorem non_positive_arguments_run:
  assumes "n \<le> 0" and "count \<le> 0"
  shows "fst (take_next n (take_init seq)) = None \<and> take_it seq n = [] \<and>
         drop_it seq n = seq \<and>
         chunkEvery seq any_count (Some 0) = [] \<and>
         set (chunkEvery seq count (Some step)) =
           {drop p seq | p. p < length seq \<and> js_rem (int p) step = Some 0} \<and>
         distinct (chunkEvery seq count (Some step))"
proof -
  from assms(1) have "fst (take_next n (take_init seq)) = None"
    by (cases seq) (simp_all add: take_next_def take_init_def)
  moreover from assms(1) have "take_it seq n = []" "drop_it seq n = seq"
    by (simp_all add: take_it_take drop_it_drop)
  moreover have "chunkEvery seq any_count (Some 0) = []"
    by (simp add: chunkEvery_def chunkEvery_loop_step_zero)
  moreover note chunkEvery_never_fills_set [OF assms(2), of seq step]
  ultimately show ?thesis by simp
qed

theorem non_positive_arguments_run_witness:
  "take_it [1, 2, 3 :: int] 0 = [] \<and> drop_it [1, 2, 3 :: int] 0 = [1, 2, 3] \<and>
   set (chunkEvery [1, 2, 3 :: int] 0 (Some 1)) = {[1, 2, 3], [2, 3], [3]} \<and>
   distinct (chunkEvery [1, 2, 3 :: int] 0 (Some 1))"
proof -
  have h: "(0::int) \<le> 0" by simp
  have "set (chunkEvery [1, 2, 3 :: int] 0 (Some 1)) = {[1, 2, 3], [2, 3], [3]}"
    by (auto simp add: chunkEvery_def js_rem_def Let_def)
  with non_positive_arguments_run [of 0 0 "[1, 2, 3 :: int]" 0 1, OF h h]
  show ?thesis by simp
qed

end
